theory Spec2Isabelle
  imports Main "HOL-Library.Sublist"
begin

section \<open>Log severities (absl/base/log_severity.h)\<close>

text \<open>
  \<^verbatim>\<open>enum class LogSeverity : int { kInfo = 0, kWarning = 1, kError = 2, kFatal = 3 }\<close>.
  The enumeration has a fixed underlying type, so every \<^verbatim>\<open>int\<close> is a value of it
  (\<^verbatim>\<open>static_cast<LogSeverity>(n)\<close> is defined for every \<^verbatim>\<open>n\<close>): a severity is its
  underlying integer, not one of four constructors. The functions below only compare
  severities and never do arithmetic on them, so the width of \<^verbatim>\<open>int\<close> plays no role
  and the underlying value is a HOL \<open>int\<close>.
\<close>

datatype LogSeverity = LogSeverity (underlying: int)

definition kInfo :: LogSeverity where
  "kInfo = LogSeverity 0"

definition kWarning :: LogSeverity where
  "kWarning = LogSeverity 1"

definition kError :: LogSeverity where
  "kError = LogSeverity 2"

definition kFatal :: LogSeverity where
  "kFatal = LogSeverity 3"

text \<open>\<^verbatim>\<open>LogSeverities()\<close>: the standard values, least to most severe.\<close>

definition LogSeverities :: "LogSeverity list" where
  "LogSeverities = [kInfo, kWarning, kError, kFatal]"

text \<open>The built-in \<^verbatim>\<open><\<close> and \<^verbatim>\<open>>\<close> of a scoped enumeration compare the underlying values.\<close>

definition sev_less :: "LogSeverity \<Rightarrow> LogSeverity \<Rightarrow> bool" where
  "sev_less s t = (underlying s < underlying t)"

definition sev_greater :: "LogSeverity \<Rightarrow> LogSeverity \<Rightarrow> bool" where
  "sev_greater s t = (underlying s > underlying t)"

text \<open>\<^verbatim>\<open>LogSeverityName(LogSeverity s)\<close>: the chain of conditionals, in the source's order.\<close>

definition LogSeverityName :: "LogSeverity \<Rightarrow> string" where
  "LogSeverityName s =
     (if s = kInfo then ''INFO''
      else if s = kWarning then ''WARNING''
      else if s = kError then ''ERROR''
      else if s = kFatal then ''FATAL'' else ''UNKNOWN'')"

text \<open>\<^verbatim>\<open>NormalizeLogSeverity(LogSeverity s)\<close>.\<close>

definition NormalizeLogSeverity :: "LogSeverity \<Rightarrow> LogSeverity" where
  "NormalizeLogSeverity s =
     (if sev_less s kInfo then kInfo
      else if sev_greater s kFatal then kError else s)"

text \<open>\<^verbatim>\<open>NormalizeLogSeverity(int s)\<close>: the overload that casts first.\<close>

definition NormalizeLogSeverity_int :: "int \<Rightarrow> LogSeverity" where
  "NormalizeLogSeverity_int s = NormalizeLogSeverity (LogSeverity s)"


section \<open>Memory, C strings and string views\<close>

text \<open>
  The string functions work on caller-owned bytes through pointers. Memory is a flat
  store from addresses to bytes; a pointer is an address. Pointer arithmetic of the
  source stays inside one object, so addresses are natural numbers and never wrap.
\<close>

type_synonym addr = nat

type_synonym memory = "addr \<Rightarrow> char"

text \<open>
  Modelled from the spec: \<^verbatim>\<open>s2_absl::string_view\<close> (string_view.h) is not among the
  sources. The spec (section 3, ByteView) describes it as a borrowed, non-owning window
  onto a contiguous byte sequence, carrying a pointer and a length.
\<close>

record string_view =
  sv_data :: addr
  sv_size :: nat

text \<open>The bytes a view denotes in a memory.\<close>

definition sv_bytes :: "memory \<Rightarrow> string_view \<Rightarrow> string" where
  "sv_bytes M v = map M [sv_data v ..< sv_data v + sv_size v]"

text \<open>
  Modelled from the spec: \<^verbatim>\<open>string_view::remove_prefix\<close> (string_view.h) is not among
  the sources. The spec (section 4.2) has it advance the view's start past \<open>n\<close> bytes,
  and a view is never extended (sections 5 and 9): narrowing by more than the view's
  length is outside the contract, which is the result \<open>None\<close>.
\<close>

definition remove_prefix :: "string_view \<Rightarrow> nat \<Rightarrow> string_view option" where
  "remove_prefix v n =
     (if n \<le> sv_size v
      then Some (v\<lparr>sv_data := sv_data v + n, sv_size := sv_size v - n\<rparr>)
      else None)"

text \<open>
  Modelled from the spec: \<^verbatim>\<open>string_view::remove_suffix\<close> (string_view.h, not among
  the sources) retracts the view's end by \<open>n\<close> bytes (section 4.2), under the same
  contract as \<open>remove_prefix\<close>.
\<close>

definition remove_suffix :: "string_view \<Rightarrow> nat \<Rightarrow> string_view option" where
  "remove_suffix v n =
     (if n \<le> sv_size v then Some (v\<lparr>sv_size := sv_size v - n\<rparr>) else None)"

text \<open>Equality of the \<open>n\<close> bytes at \<open>a\<close> and the \<open>n\<close> bytes at \<open>b\<close>.\<close>

definition bytes_equal :: "memory \<Rightarrow> addr \<Rightarrow> addr \<Rightarrow> nat \<Rightarrow> bool" where
  "bytes_equal M a b n = (map M [a ..< a + n] = map M [b ..< b + n])"

text \<open>
  Modelled from the spec: \<^verbatim>\<open>s2_absl::StartsWith\<close> (match.h) is not among the sources.
  The spec (section 4.2): matching for prefix and suffix is by raw byte equality, and
  if the input view has length less than \<open>expected\<close> the match fails without any
  read past the end. So the lengths are compared first, and then the first
  \<open>|expected|\<close> bytes of the text with the bytes of \<open>expected\<close>.
\<close>

definition StartsWith :: "memory \<Rightarrow> string_view \<Rightarrow> string_view \<Rightarrow> bool" where
  "StartsWith M text pre =
     (sv_size pre \<le> sv_size text
      \<and> bytes_equal M (sv_data text) (sv_data pre) (sv_size pre))"

text \<open>
  Modelled from the spec: \<^verbatim>\<open>s2_absl::EndsWith\<close> (match.h, not among the sources), the
  same test at the tail: the lengths first, then the last \<open>|expected|\<close> bytes of the text.
\<close>

definition EndsWith :: "memory \<Rightarrow> string_view \<Rightarrow> string_view \<Rightarrow> bool" where
  "EndsWith M text suf =
     (sv_size suf \<le> sv_size text
      \<and> bytes_equal M (sv_data text + (sv_size text - sv_size suf)) (sv_data suf)
           (sv_size suf))"

text \<open>
  Modelled from the spec: \<^verbatim>\<open>s2_absl::ascii_isspace\<close> (ascii.h) is not among the
  sources. The spec (section 4.2): ASCII whitespace is exactly the six bytes 0x20, 0x09,
  0x0A, 0x0B, 0x0C, 0x0D.
\<close>

definition ascii_isspace :: "char \<Rightarrow> bool" where
  "ascii_isspace c =
     (c = CHR 0x20 \<or> c = CHR 0x09 \<or> c = CHR 0x0A \<or> c = CHR 0x0B \<or> c = CHR 0x0C
      \<or> c = CHR 0x0D)"


section \<open>Stripping (absl/strings/strip.h)\<close>

text \<open>
  \<^verbatim>\<open>bool ConsumePrefix(string_view* str, string_view expected)\<close>. The model returns
  the boolean together with the value of \<^verbatim>\<open>*str\<close> on exit.
\<close>

definition ConsumePrefix ::
  "memory \<Rightarrow> string_view \<Rightarrow> string_view \<Rightarrow> (bool \<times> string_view) option" where
  "ConsumePrefix M str expected =
     (if \<not> StartsWith M str expected then Some (False, str)
      else case remove_prefix str (sv_size expected) of
             None \<Rightarrow> None
           | Some str' \<Rightarrow> Some (True, str'))"

text \<open>\<^verbatim>\<open>bool ConsumeSuffix(string_view* str, string_view expected)\<close>.\<close>

definition ConsumeSuffix ::
  "memory \<Rightarrow> string_view \<Rightarrow> string_view \<Rightarrow> (bool \<times> string_view) option" where
  "ConsumeSuffix M str expected =
     (if \<not> EndsWith M str expected then Some (False, str)
      else case remove_suffix str (sv_size expected) of
             None \<Rightarrow> None
           | Some str' \<Rightarrow> Some (True, str'))"

text \<open>
  \<^verbatim>\<open>string_view StripPrefix(string_view str, string_view prefix)\<close>: the view is passed
  by value, narrowed when the prefix matches, and returned.
\<close>

definition StripPrefix :: "memory \<Rightarrow> string_view \<Rightarrow> string_view \<Rightarrow> string_view option" where
  "StripPrefix M str pre =
     (if StartsWith M str pre then remove_prefix str (sv_size pre) else Some str)"

text \<open>\<^verbatim>\<open>string_view StripSuffix(string_view str, string_view suffix)\<close>.\<close>

definition StripSuffix :: "memory \<Rightarrow> string_view \<Rightarrow> string_view \<Rightarrow> string_view option" where
  "StripSuffix M str suf =
     (if EndsWith M str suf then remove_suffix str (sv_size suf) else Some str)"

text \<open>The double application \<^verbatim>\<open>StripPrefix(StripPrefix(str, prefix), prefix)\<close>.\<close>

definition StripPrefix_twice ::
  "memory \<Rightarrow> string_view \<Rightarrow> string_view \<Rightarrow> string_view option" where
  "StripPrefix_twice M str pre =
     (case StripPrefix M str pre of
        None \<Rightarrow> None
      | Some str' \<Rightarrow> StripPrefix M str' pre)"

text \<open>
  \<^verbatim>\<open>void ReplaceCharacter(char* str, size_t len, char remove, char replace_with)\<close>.
  The loop \<^verbatim>\<open>for (char* end = str + len; str != end; ++str)\<close> runs until the pointer
  \<^emph>\<open>equals\<close> \<open>end\<close>, so taken alone it need not stop: the result is an option, \<open>None\<close>
  for a loop that never returns. The function returns the memory it leaves.
\<close>

partial_function (option) ReplaceCharacter_loop ::
  "memory \<Rightarrow> addr \<Rightarrow> addr \<Rightarrow> char \<Rightarrow> char \<Rightarrow> memory option" where
  "ReplaceCharacter_loop M str endp remove replace_with =
     (if str \<noteq> endp
      then ReplaceCharacter_loop
             (if M str = remove then M(str := replace_with) else M)
             (str + 1) endp remove replace_with
      else Some M)"

definition ReplaceCharacter ::
  "memory \<Rightarrow> addr \<Rightarrow> nat \<Rightarrow> char \<Rightarrow> char \<Rightarrow> memory option" where
  "ReplaceCharacter M str len remove replace_with =
     ReplaceCharacter_loop M str (str + len) remove replace_with"

text \<open>
  \<^verbatim>\<open>SkipLeadingWhitespace(const char* str)\<close> and \<^verbatim>\<open>SkipLeadingWhitespace(char* str)\<close>
  have the same body, \<^verbatim>\<open>while (ascii_isspace(*str)) ++str; return str;\<close>. The loop
  has no bound of its own: \<open>None\<close> is a loop that never returns.
\<close>

partial_function (option) SkipLeadingWhitespace :: "memory \<Rightarrow> addr \<Rightarrow> addr option" where
  "SkipLeadingWhitespace M str =
     (if ascii_isspace (M str) then SkipLeadingWhitespace M (str + 1) else Some str)"

text \<open>
  Memories for concrete runs: \<open>zero_memory\<close> holds NUL everywhere, and
  \<open>store_bytes M a s\<close> is \<open>M\<close> with the bytes of \<open>s\<close> written from address \<open>a\<close> on.
\<close>

definition zero_memory :: memory where
  "zero_memory a = CHR 0x00"

definition store_bytes :: "memory \<Rightarrow> addr \<Rightarrow> string \<Rightarrow> memory" where
  "store_bytes M a s x = (if a \<le> x \<and> x < a + length s then s ! (x - a) else M x)"

text \<open>The view of \<open>n\<close> bytes at address \<open>a\<close>.\<close>

definition view_at :: "addr \<Rightarrow> nat \<Rightarrow> string_view" where
  "view_at a n = \<lparr>sv_data = a, sv_size = n\<rparr>"


text \<open>The recursion equations of the two loops also serve to run them on concrete inputs.\<close>

declare ReplaceCharacter_loop.simps [code]

declare SkipLeadingWhitespace.simps [code]


section \<open>Properties of the severities\<close>

lemmas sev_consts = kInfo_def kWarning_def kError_def kFatal_def

lemmas normalize_defs =
  NormalizeLogSeverity_int_def NormalizeLogSeverity_def sev_less_def sev_greater_def

lemma normalize_int_cases:
  "NormalizeLogSeverity_int n =
     (if n < 0 then kInfo else if 3 < n then kError else LogSeverity n)"
  by (simp add: normalize_defs sev_consts)

text \<open>
  Claim C1. For every integer \<open>n\<close>, \<open>NormalizeLogSeverity(n)\<close> is one of the four
  defined values; it is Info exactly when \<open>n \<le> 0\<close>, Warning exactly when \<open>n = 1\<close>,
  Error exactly when \<open>n = 2\<close> or \<open>n > 3\<close> (so a value above Fatal clamps to Error, not
  to Fatal), and Fatal exactly when \<open>n = 3\<close>. The last conjunct says that the result is
  the input itself exactly on the range 0..3, so every in-range input maps to itself.
\<close>

theorem normalize_int_value:
  "NormalizeLogSeverity_int n \<in> set LogSeverities
   \<and> (NormalizeLogSeverity_int n = kInfo \<longleftrightarrow> n \<le> 0)
   \<and> (NormalizeLogSeverity_int n = kWarning \<longleftrightarrow> n = 1)
   \<and> (NormalizeLogSeverity_int n = kError \<longleftrightarrow> n = 2 \<or> n > 3)
   \<and> (NormalizeLogSeverity_int n = kFatal \<longleftrightarrow> n = 3)
   \<and> (NormalizeLogSeverity_int n = LogSeverity n \<longleftrightarrow> 0 \<le> n \<and> n \<le> 3)"
proof -
  consider "n < 0" | "n = 0" | "n = 1" | "n = 2" | "n = 3" | "3 < n"
    by linarith
  then show ?thesis
    by cases (simp_all add: normalize_int_cases LogSeverities_def sev_consts)
qed

text \<open>
  Claim C4. \<open>LogSeverityName\<close> returns \<open>INFO\<close>, \<open>WARNING\<close>, \<open>ERROR\<close>, \<open>FATAL\<close> for the
  severities 0, 1, 2, 3 and \<open>UNKNOWN\<close> for every other integer cast to a severity.
\<close>

theorem log_severity_name_value:
  "LogSeverityName kInfo = ''INFO''
   \<and> LogSeverityName kWarning = ''WARNING''
   \<and> LogSeverityName kError = ''ERROR''
   \<and> LogSeverityName kFatal = ''FATAL''
   \<and> LogSeverityName (LogSeverity n) =
       (if n = 0 then ''INFO'' else if n = 1 then ''WARNING''
        else if n = 2 then ''ERROR'' else if n = 3 then ''FATAL'' else ''UNKNOWN'')
   \<and> (LogSeverityName (LogSeverity n) = ''UNKNOWN'' \<longleftrightarrow> n \<notin> {0, 1, 2, 3})"
  by (simp add: LogSeverityName_def sev_consts)

text \<open>
  Claim C5. For every integer \<open>n\<close>, the name of the normalized severity is one of
  \<open>INFO\<close>, \<open>WARNING\<close>, \<open>ERROR\<close>, \<open>FATAL\<close> and is never \<open>UNKNOWN\<close>.
\<close>

theorem name_of_normalized:
  "LogSeverityName (NormalizeLogSeverity_int n) \<in> {''INFO'', ''WARNING'', ''ERROR'', ''FATAL''}
   \<and> LogSeverityName (NormalizeLogSeverity_int n) \<noteq> ''UNKNOWN''"
  by (simp add: normalize_int_cases LogSeverityName_def sev_consts)


section \<open>Views, prefixes and suffixes\<close>

lemma prefix_iff_take:
  "prefix xs ys \<longleftrightarrow> length xs \<le> length ys \<and> take (length xs) ys = xs"
proof
  assume "prefix xs ys"
  then obtain zs where "ys = xs @ zs" by (auto simp: prefix_def)
  then show "length xs \<le> length ys \<and> take (length xs) ys = xs" by simp
next
  assume r: "length xs \<le> length ys \<and> take (length xs) ys = xs"
  have "ys = take (length xs) ys @ drop (length xs) ys" by simp
  with r have "ys = xs @ drop (length xs) ys" by simp
  then show "prefix xs ys" by (rule prefixI)
qed

lemma suffix_iff_drop:
  "suffix xs ys \<longleftrightarrow> length xs \<le> length ys \<and> drop (length ys - length xs) ys = xs"
proof
  assume "suffix xs ys"
  then obtain zs where "ys = zs @ xs" by (auto simp: suffix_def)
  then show "length xs \<le> length ys \<and> drop (length ys - length xs) ys = xs" by simp
next
  assume r: "length xs \<le> length ys \<and> drop (length ys - length xs) ys = xs"
  have "ys = take (length ys - length xs) ys @ drop (length ys - length xs) ys" by simp
  with r have "ys = take (length ys - length xs) ys @ xs" by simp
  then show "suffix xs ys" by (rule suffixI)
qed

lemma length_sv_bytes: "length (sv_bytes M v) = sv_size v"
  by (simp add: sv_bytes_def)

text \<open>The length test and byte comparison of \<open>StartsWith\<close> decide the prefix relation.\<close>

lemma StartsWith_iff_prefix:
  "StartsWith M v p \<longleftrightarrow> prefix (sv_bytes M p) (sv_bytes M v)"
  by (auto simp: StartsWith_def bytes_equal_def prefix_iff_take sv_bytes_def take_map)

lemma EndsWith_iff_suffix:
  "EndsWith M v p \<longleftrightarrow> suffix (sv_bytes M p) (sv_bytes M v)"
  by (auto simp: EndsWith_def bytes_equal_def suffix_iff_drop sv_bytes_def drop_map)

lemma sv_bytes_advance:
  "n \<le> sv_size v \<Longrightarrow>
   sv_bytes M (v\<lparr>sv_data := sv_data v + n, sv_size := sv_size v - n\<rparr>) = drop n (sv_bytes M v)"
  by (simp add: sv_bytes_def drop_map)

lemma sv_bytes_retract:
  "sv_bytes M (v\<lparr>sv_size := sv_size v - n\<rparr>) = take (sv_size v - n) (sv_bytes M v)"
  by (simp add: sv_bytes_def take_map)

text \<open>
  After a match the narrowing is within the view, so none of the four functions ever
  reaches the \<open>None\<close> of \<open>remove_prefix\<close> or \<open>remove_suffix\<close>.
\<close>

lemma ConsumePrefix_cases:
  "ConsumePrefix M v p =
     (if prefix (sv_bytes M p) (sv_bytes M v)
      then Some (True, v\<lparr>sv_data := sv_data v + sv_size p, sv_size := sv_size v - sv_size p\<rparr>)
      else Some (False, v))"
  using prefix_length_le [of "sv_bytes M p" "sv_bytes M v"]
  by (simp add: ConsumePrefix_def StartsWith_iff_prefix remove_prefix_def length_sv_bytes)

lemma ConsumeSuffix_cases:
  "ConsumeSuffix M v p =
     (if suffix (sv_bytes M p) (sv_bytes M v)
      then Some (True, v\<lparr>sv_size := sv_size v - sv_size p\<rparr>)
      else Some (False, v))"
  using suffix_length_le [of "sv_bytes M p" "sv_bytes M v"]
  by (simp add: ConsumeSuffix_def EndsWith_iff_suffix remove_suffix_def length_sv_bytes)

lemma StripPrefix_cases:
  "StripPrefix M v p =
     (if prefix (sv_bytes M p) (sv_bytes M v)
      then Some (v\<lparr>sv_data := sv_data v + sv_size p, sv_size := sv_size v - sv_size p\<rparr>)
      else Some v)"
  using prefix_length_le [of "sv_bytes M p" "sv_bytes M v"]
  by (simp add: StripPrefix_def StartsWith_iff_prefix remove_prefix_def length_sv_bytes)

lemma StripSuffix_cases:
  "StripSuffix M v p =
     (if suffix (sv_bytes M p) (sv_bytes M v)
      then Some (v\<lparr>sv_size := sv_size v - sv_size p\<rparr>)
      else Some v)"
  using suffix_length_le [of "sv_bytes M p" "sv_bytes M v"]
  by (simp add: StripSuffix_def EndsWith_iff_suffix remove_suffix_def length_sv_bytes)


section \<open>The two loops\<close>

text \<open>
  With \<open>end = str + len\<close> the loop of \<open>ReplaceCharacter\<close> returns after \<open>len\<close> rounds,
  and the memory it leaves is the old one with \<open>b\<close> for every \<open>a\<close> in the region.
\<close>

lemma ReplaceCharacter_loop_value:
  "ReplaceCharacter_loop M s (s + n) a b =
     Some (\<lambda>x. if s \<le> x \<and> x < s + n \<and> M x = a then b else M x)"
proof (induction n arbitrary: M s)
  case 0
  have "(\<lambda>x. if s \<le> x \<and> x < s + 0 \<and> M x = a then b else M x) = M"
    by (rule ext) auto
  then show ?case
    by (subst ReplaceCharacter_loop.simps) simp
next
  case (Suc n)
  let ?M1 = "if M s = a then M(s := b) else M"
  have "ReplaceCharacter_loop M s (s + Suc n) a b =
        ReplaceCharacter_loop ?M1 (s + 1) (s + 1 + n) a b"
    by (subst ReplaceCharacter_loop.simps) simp
  also have "\<dots> = Some (\<lambda>x. if s + 1 \<le> x \<and> x < s + 1 + n \<and> ?M1 x = a then b else ?M1 x)"
    by (rule Suc.IH)
  also have "(\<lambda>x. if s + 1 \<le> x \<and> x < s + 1 + n \<and> ?M1 x = a then b else ?M1 x)
      = (\<lambda>x. if s \<le> x \<and> x < s + Suc n \<and> M x = a then b else M x)"
    by (rule ext) auto
  finally show ?case .
qed

lemma ReplaceCharacter_value:
  "ReplaceCharacter M s n a b =
     Some (\<lambda>x. if s \<le> x \<and> x < s + n \<and> M x = a then b else M x)"
  by (simp add: ReplaceCharacter_def ReplaceCharacter_loop_value)

lemma SkipLeadingWhitespace_stop:
  "\<not> ascii_isspace (M s) \<Longrightarrow> SkipLeadingWhitespace M s = Some s"
  by (subst SkipLeadingWhitespace.simps) simp

lemma SkipLeadingWhitespace_step:
  "ascii_isspace (M s) \<Longrightarrow> SkipLeadingWhitespace M s = SkipLeadingWhitespace M (Suc s)"
  by (subst SkipLeadingWhitespace.simps) simp

text \<open>The loop walks over a run of whitespace and stops at the byte that ends it.\<close>

lemma SkipLeadingWhitespace_first:
  "\<forall>k<j. ascii_isspace (M (s + k)) \<Longrightarrow> \<not> ascii_isspace (M (s + j)) \<Longrightarrow>
   SkipLeadingWhitespace M s = Some (s + j)"
proof (induction j arbitrary: s)
  case 0
  then show ?case by (simp add: SkipLeadingWhitespace_stop)
next
  case (Suc j)
  from Suc.prems(1) have "ascii_isspace (M (s + 0))" by blast
  then have "SkipLeadingWhitespace M s = SkipLeadingWhitespace M (Suc s)"
    by (simp add: SkipLeadingWhitespace_step)
  also have "\<dots> = Some (Suc s + j)"
  proof (rule Suc.IH)
    show "\<forall>k<j. ascii_isspace (M (Suc s + k))"
    proof (intro allI impI)
      fix k assume "k < j"
      then have "Suc k < Suc j" by simp
      with Suc.prems(1) have "ascii_isspace (M (s + Suc k))" by blast
      then show "ascii_isspace (M (Suc s + k))" by simp
    qed
    show "\<not> ascii_isspace (M (Suc s + j))" using Suc.prems(2) by simp
  qed
  finally show ?case by simp
qed

lemma not_isspace_NUL: "\<not> ascii_isspace (CHR 0x00)"
  by (simp add: ascii_isspace_def)


section \<open>Consuming and stripping prefixes and suffixes\<close>

lemma size_le_of_prefix:
  "prefix (sv_bytes M p) (sv_bytes M v) \<Longrightarrow> sv_size p \<le> sv_size v"
  using prefix_length_le [of "sv_bytes M p" "sv_bytes M v"] by (simp add: length_sv_bytes)

text \<open>
  Claim C2. \<open>ConsumePrefix(&v, p)\<close> returns true exactly when the bytes of \<open>v\<close> on
  entry begin with the bytes of \<open>p\<close>. On true, \<open>v\<close> on exit starts \<open>|p|\<close> bytes later,
  is \<open>|p|\<close> bytes shorter, and denotes the entry bytes without the first \<open>|p|\<close>; on
  false, \<open>v\<close> is unchanged. An empty \<open>p\<close> gives true and leaves \<open>v\<close> unchanged,
  \<open>p = v\<close> gives true and leaves \<open>v\<close> empty, and \<open>|v| < |p|\<close> gives false.
  \<open>ConsumeSuffix\<close> is the same at the tail: on true the start stays and the end is
  retracted by \<open>|p|\<close> bytes. Neither call ever narrows a view by more than its length
  (the result is never \<open>None\<close>).
\<close>

theorem consume_prefix_suffix:
  "(\<exists>r v'. ConsumePrefix M v p = Some (r, v')
       \<and> (r \<longleftrightarrow> prefix (sv_bytes M p) (sv_bytes M v))
       \<and> (r \<longrightarrow> sv_data v' = sv_data v + sv_size p
               \<and> sv_size v' + sv_size p = sv_size v
               \<and> sv_bytes M v' = drop (sv_size p) (sv_bytes M v))
       \<and> (\<not> r \<longrightarrow> v' = v))
   \<and> (sv_size p = 0 \<longrightarrow> ConsumePrefix M v p = Some (True, v))
   \<and> (\<exists>v'. ConsumePrefix M v v = Some (True, v') \<and> sv_size v' = 0 \<and> sv_bytes M v' = [])
   \<and> (sv_size v < sv_size p \<longrightarrow> ConsumePrefix M v p = Some (False, v))
   \<and> (\<exists>r v'. ConsumeSuffix M v p = Some (r, v')
       \<and> (r \<longleftrightarrow> suffix (sv_bytes M p) (sv_bytes M v))
       \<and> (r \<longrightarrow> sv_data v' = sv_data v
               \<and> sv_size v' + sv_size p = sv_size v
               \<and> sv_bytes M v' = take (sv_size v - sv_size p) (sv_bytes M v))
       \<and> (\<not> r \<longrightarrow> v' = v))
   \<and> (sv_size p = 0 \<longrightarrow> ConsumeSuffix M v p = Some (True, v))
   \<and> (\<exists>v'. ConsumeSuffix M v v = Some (True, v') \<and> sv_size v' = 0 \<and> sv_bytes M v' = [])
   \<and> (sv_size v < sv_size p \<longrightarrow> ConsumeSuffix M v p = Some (False, v))"
proof -
  have le_p: "prefix (sv_bytes M p) (sv_bytes M v) \<Longrightarrow> sv_size p \<le> sv_size v"
    using prefix_length_le [of "sv_bytes M p" "sv_bytes M v"] by (simp add: length_sv_bytes)
  have le_s: "suffix (sv_bytes M p) (sv_bytes M v) \<Longrightarrow> sv_size p \<le> sv_size v"
    using suffix_length_le [of "sv_bytes M p" "sv_bytes M v"] by (simp add: length_sv_bytes)
  have empty: "sv_size p = 0 \<Longrightarrow> sv_bytes M p = []"
    using length_sv_bytes [of M p] by simp
  have p1: "\<exists>r v'. ConsumePrefix M v p = Some (r, v')
       \<and> (r \<longleftrightarrow> prefix (sv_bytes M p) (sv_bytes M v))
       \<and> (r \<longrightarrow> sv_data v' = sv_data v + sv_size p
               \<and> sv_size v' + sv_size p = sv_size v
               \<and> sv_bytes M v' = drop (sv_size p) (sv_bytes M v))
       \<and> (\<not> r \<longrightarrow> v' = v)"
    using le_p by (simp add: ConsumePrefix_cases sv_bytes_advance)
  have p2: "sv_size p = 0 \<longrightarrow> ConsumePrefix M v p = Some (True, v)"
    using empty by (simp add: ConsumePrefix_cases)
  have p3: "\<exists>v'. ConsumePrefix M v v = Some (True, v') \<and> sv_size v' = 0 \<and> sv_bytes M v' = []"
    by (simp add: ConsumePrefix_cases sv_bytes_def)
  have p4: "sv_size v < sv_size p \<longrightarrow> ConsumePrefix M v p = Some (False, v)"
    using le_p by (auto simp: ConsumePrefix_cases)
  have s1: "\<exists>r v'. ConsumeSuffix M v p = Some (r, v')
       \<and> (r \<longleftrightarrow> suffix (sv_bytes M p) (sv_bytes M v))
       \<and> (r \<longrightarrow> sv_data v' = sv_data v
               \<and> sv_size v' + sv_size p = sv_size v
               \<and> sv_bytes M v' = take (sv_size v - sv_size p) (sv_bytes M v))
       \<and> (\<not> r \<longrightarrow> v' = v)"
    using le_s by (simp add: ConsumeSuffix_cases sv_bytes_retract)
  have s2: "sv_size p = 0 \<longrightarrow> ConsumeSuffix M v p = Some (True, v)"
    using empty by (simp add: ConsumeSuffix_cases)
  have s3: "\<exists>v'. ConsumeSuffix M v v = Some (True, v') \<and> sv_size v' = 0 \<and> sv_bytes M v' = []"
    by (simp add: ConsumeSuffix_cases sv_bytes_def)
  have s4: "sv_size v < sv_size p \<longrightarrow> ConsumeSuffix M v p = Some (False, v)"
    using le_s by (auto simp: ConsumeSuffix_cases)
  from p1 p2 p3 p4 s1 s2 s3 s4 show ?thesis by blast
qed

text \<open>
  The scenarios of the spec, from the theorem: \<open>abc\<close> consumes the prefix \<open>a\<close> and
  becomes \<open>bc\<close>, does not consume \<open>x\<close>, consumes the empty prefix; \<open>a\<close> does not
  consume the longer \<open>abc\<close>; \<open>abcdef\<close> consumes the suffix \<open>def\<close> and becomes \<open>abc\<close>,
  and does not consume the suffix \<open>x\<close>.
\<close>

theorem consume_prefix_suffix_witness:
  "(\<exists>v'. ConsumePrefix (store_bytes (store_bytes zero_memory 16 ''abcdef'') 32 ''x'')
            (view_at 16 3) (view_at 16 1) = Some (True, v')
        \<and> sv_bytes (store_bytes (store_bytes zero_memory 16 ''abcdef'') 32 ''x'') v' = ''bc'')
   \<and> ConsumePrefix (store_bytes (store_bytes zero_memory 16 ''abcdef'') 32 ''x'')
        (view_at 16 3) (view_at 32 1) = Some (False, view_at 16 3)
   \<and> ConsumePrefix (store_bytes (store_bytes zero_memory 16 ''abcdef'') 32 ''x'')
        (view_at 16 3) (view_at 0 0) = Some (True, view_at 16 3)
   \<and> ConsumePrefix (store_bytes (store_bytes zero_memory 16 ''abcdef'') 32 ''x'')
        (view_at 16 1) (view_at 16 3) = Some (False, view_at 16 1)
   \<and> (\<exists>v'. ConsumeSuffix (store_bytes (store_bytes zero_memory 16 ''abcdef'') 32 ''x'')
            (view_at 16 6) (view_at 19 3) = Some (True, v')
        \<and> sv_bytes (store_bytes (store_bytes zero_memory 16 ''abcdef'') 32 ''x'') v' = ''abc'')
   \<and> ConsumeSuffix (store_bytes (store_bytes zero_memory 16 ''abcdef'') 32 ''x'')
        (view_at 16 6) (view_at 32 1) = Some (False, view_at 16 6)"
proof -
  let ?M = "store_bytes (store_bytes zero_memory 16 ''abcdef'') 32 ''x''"
  note ok = consume_prefix_suffix [of ?M "view_at 16 3" "view_at 16 1", THEN conjunct1]
  have pre: "prefix (sv_bytes ?M (view_at 16 1)) (sv_bytes ?M (view_at 16 3))"
    by code_simp
  have rest: "drop (sv_size (view_at 16 1)) (sv_bytes ?M (view_at 16 3)) = ''bc''"
    by code_simp
  from ok obtain r v' where
    run: "ConsumePrefix ?M (view_at 16 3) (view_at 16 1) = Some (r, v')"
    and r: "r \<longleftrightarrow> prefix (sv_bytes ?M (view_at 16 1)) (sv_bytes ?M (view_at 16 3))"
    and adv: "r \<longrightarrow> sv_bytes ?M v' = drop (sv_size (view_at 16 1)) (sv_bytes ?M (view_at 16 3))"
    by (elim exE conjE) simp
  from r pre have "r" by simp
  with run adv rest
  have a: "\<exists>v'. ConsumePrefix ?M (view_at 16 3) (view_at 16 1) = Some (True, v')
        \<and> sv_bytes ?M v' = ''bc''"
    by simp
  note no = consume_prefix_suffix [of ?M "view_at 16 3" "view_at 32 1", THEN conjunct1]
  have npre: "\<not> prefix (sv_bytes ?M (view_at 32 1)) (sv_bytes ?M (view_at 16 3))"
    by code_simp
  from no obtain r2 v2 where
    run2: "ConsumePrefix ?M (view_at 16 3) (view_at 32 1) = Some (r2, v2)"
    and r2: "r2 \<longleftrightarrow> prefix (sv_bytes ?M (view_at 32 1)) (sv_bytes ?M (view_at 16 3))"
    and same2: "\<not> r2 \<longrightarrow> v2 = view_at 16 3"
    by (elim exE conjE) simp
  from r2 npre have "\<not> r2" by simp
  with run2 same2
  have b: "ConsumePrefix ?M (view_at 16 3) (view_at 32 1) = Some (False, view_at 16 3)"
    by simp
  have emp: "sv_size (view_at 0 0) = 0"
    by (simp add: view_at_def)
  note consume_prefix_suffix [of ?M "view_at 16 3" "view_at 0 0",
      THEN conjunct2, THEN conjunct1, rule_format, OF emp]
  then have c: "ConsumePrefix ?M (view_at 16 3) (view_at 0 0) = Some (True, view_at 16 3)" .
  have short: "sv_size (view_at 16 1) < sv_size (view_at 16 3)"
    by (simp add: view_at_def)
  note consume_prefix_suffix [of ?M "view_at 16 1" "view_at 16 3",
      THEN conjunct2, THEN conjunct2, THEN conjunct2, THEN conjunct1, rule_format, OF short]
  then have d: "ConsumePrefix ?M (view_at 16 1) (view_at 16 3) = Some (False, view_at 16 1)" .
  note oks = consume_prefix_suffix [of ?M "view_at 16 6" "view_at 19 3",
      THEN conjunct2, THEN conjunct2, THEN conjunct2, THEN conjunct2, THEN conjunct1]
  have suf: "suffix (sv_bytes ?M (view_at 19 3)) (sv_bytes ?M (view_at 16 6))"
    by code_simp
  have front: "take (sv_size (view_at 16 6) - sv_size (view_at 19 3))
                 (sv_bytes ?M (view_at 16 6)) = ''abc''"
    by code_simp
  from oks obtain r3 v3 where
    run3: "ConsumeSuffix ?M (view_at 16 6) (view_at 19 3) = Some (r3, v3)"
    and r3: "r3 \<longleftrightarrow> suffix (sv_bytes ?M (view_at 19 3)) (sv_bytes ?M (view_at 16 6))"
    and ret: "r3 \<longrightarrow> sv_bytes ?M v3 =
        take (sv_size (view_at 16 6) - sv_size (view_at 19 3)) (sv_bytes ?M (view_at 16 6))"
    by (elim exE conjE) simp
  from r3 suf have "r3" by simp
  with run3 ret front
  have e: "\<exists>v'. ConsumeSuffix ?M (view_at 16 6) (view_at 19 3) = Some (True, v')
        \<and> sv_bytes ?M v' = ''abc''"
    by simp
  note nos = consume_prefix_suffix [of ?M "view_at 16 6" "view_at 32 1",
      THEN conjunct2, THEN conjunct2, THEN conjunct2, THEN conjunct2, THEN conjunct1]
  have nsuf: "\<not> suffix (sv_bytes ?M (view_at 32 1)) (sv_bytes ?M (view_at 16 6))"
    by code_simp
  from nos obtain r4 v4 where
    run4: "ConsumeSuffix ?M (view_at 16 6) (view_at 32 1) = Some (r4, v4)"
    and r4: "r4 \<longleftrightarrow> suffix (sv_bytes ?M (view_at 32 1)) (sv_bytes ?M (view_at 16 6))"
    and same4: "\<not> r4 \<longrightarrow> v4 = view_at 16 6"
    by (elim exE conjE) simp
  from r4 nsuf have "\<not> r4" by simp
  with run4 same4
  have f: "ConsumeSuffix ?M (view_at 16 6) (view_at 32 1) = Some (False, view_at 16 6)"
    by simp
  from a b c d e f show ?thesis by (intro conjI)
qed

text \<open>
  Claim C3, as stated, says that the double application equals the single one
  \<^emph>\<open>only when\<close> \<open>v\<close> does not begin with \<open>p\<close> followed by \<open>p\<close>. With the empty
  prefix this fails: every view begins with two empty prefixes, and stripping is
  idempotent all the same.
\<close>

theorem strip_prefix_empty_counterexample:
  "StripPrefix_twice (store_bytes zero_memory 16 ''abc'') (view_at 16 3) (view_at 16 0)
     = StripPrefix (store_bytes zero_memory 16 ''abc'') (view_at 16 3) (view_at 16 0)
   \<and> prefix (sv_bytes (store_bytes zero_memory 16 ''abc'') (view_at 16 0)
             @ sv_bytes (store_bytes zero_memory 16 ''abc'') (view_at 16 0))
        (sv_bytes (store_bytes zero_memory 16 ''abc'') (view_at 16 3))"
  by code_simp

text \<open>
  Claim C3, amended. A single \<open>StripPrefix(v, p)\<close> removes at most one leading
  occurrence of \<open>p\<close>: when \<open>v\<close> begins with \<open>p\<close> the result denotes the bytes of \<open>v\<close>
  after that one occurrence, and otherwise the result is \<open>v\<close>. The double application
  \<open>StripPrefix(StripPrefix(v, p), p)\<close> equals \<open>StripPrefix(v, p)\<close> if and only if
  \<open>p\<close> is empty or \<open>v\<close> does not begin with \<open>p\<close> immediately followed by \<open>p\<close>.
\<close>

theorem strip_prefix_twice:
  "\<exists>v1 v2. StripPrefix M v p = Some v1 \<and> StripPrefix_twice M v p = Some v2
     \<and> (if prefix (sv_bytes M p) (sv_bytes M v)
         then sv_bytes M p @ sv_bytes M v1 = sv_bytes M v else v1 = v)
     \<and> (v2 = v1 \<longleftrightarrow> sv_size p = 0 \<or> \<not> prefix (sv_bytes M p @ sv_bytes M p) (sv_bytes M v))"
proof (cases "prefix (sv_bytes M p) (sv_bytes M v)")
  case False
  then have "\<not> prefix (sv_bytes M p @ sv_bytes M p) (sv_bytes M v)"
    using append_prefixD by blast
  with False show ?thesis
    by (simp add: StripPrefix_twice_def StripPrefix_cases)
next
  case True
  let ?v1 = "v\<lparr>sv_data := sv_data v + sv_size p, sv_size := sv_size v - sv_size p\<rparr>"
  from True have le: "sv_size p \<le> sv_size v" by (rule size_le_of_prefix)
  have v1: "StripPrefix M v p = Some ?v1" using True by (simp add: StripPrefix_cases)
  have b1: "sv_bytes M ?v1 = drop (sv_size p) (sv_bytes M v)"
    using le by (rule sv_bytes_advance)
  from True obtain zs where zs: "sv_bytes M v = sv_bytes M p @ zs"
    by (auto simp: prefix_def)
  then have rest: "sv_bytes M ?v1 = zs"
    using b1 by (simp add: length_sv_bytes)
  have pp: "prefix (sv_bytes M p @ sv_bytes M p) (sv_bytes M v) \<longleftrightarrow> prefix (sv_bytes M p) zs"
    using zs by simp
  have once: "sv_bytes M p @ sv_bytes M ?v1 = sv_bytes M v"
    using zs rest by simp
  show ?thesis
  proof (cases "prefix (sv_bytes M p) zs")
    case False
    then have "StripPrefix_twice M v p = Some ?v1"
      using v1 rest by (simp add: StripPrefix_twice_def StripPrefix_cases)
    with v1 once True False pp show ?thesis by simp
  next
    case again: True
    let ?v2 = "?v1\<lparr>sv_data := sv_data ?v1 + sv_size p, sv_size := sv_size ?v1 - sv_size p\<rparr>"
    have v2: "StripPrefix_twice M v p = Some ?v2"
      using v1 rest again by (simp add: StripPrefix_twice_def StripPrefix_cases)
    have "?v2 = ?v1 \<longleftrightarrow> sv_size p = 0"
    proof
      assume "?v2 = ?v1"
      then have "sv_data ?v2 = sv_data ?v1" by (rule arg_cong)
      then show "sv_size p = 0" by simp
    next
      assume "sv_size p = 0"
      then show "?v2 = ?v1" by simp
    qed
    with v1 v2 once True again pp show ?thesis by simp
  qed
qed

text \<open>
  On \<open>ababc\<close> with prefix \<open>ab\<close> one application leaves \<open>abc\<close> and the second
  one strips again; with prefix \<open>abc\<close> (no match) the view is returned as it is.
\<close>

theorem strip_prefix_twice_witness:
  "(\<exists>v1. StripPrefix (store_bytes zero_memory 16 ''ababc'') (view_at 16 5) (view_at 16 2)
            = Some v1
        \<and> sv_bytes (store_bytes zero_memory 16 ''ababc'') v1 = ''abc'')
   \<and> (\<exists>v1 v2. StripPrefix (store_bytes zero_memory 16 ''ababc'') (view_at 16 5) (view_at 16 2)
            = Some v1
        \<and> StripPrefix_twice (store_bytes zero_memory 16 ''ababc'') (view_at 16 5) (view_at 16 2)
            = Some v2
        \<and> v2 \<noteq> v1)
   \<and> StripPrefix (store_bytes zero_memory 16 ''ababc'') (view_at 16 5) (view_at 18 3)
        = Some (view_at 16 5)"
proof -
  let ?M = "store_bytes zero_memory 16 ''ababc''"
  have pre: "prefix (sv_bytes ?M (view_at 16 2)) (sv_bytes ?M (view_at 16 5))"
    by code_simp
  have pp: "prefix (sv_bytes ?M (view_at 16 2) @ sv_bytes ?M (view_at 16 2))
              (sv_bytes ?M (view_at 16 5))"
    by code_simp
  have ne: "sv_size (view_at 16 2) \<noteq> 0"
    by (simp add: view_at_def)
  have bv: "sv_bytes ?M (view_at 16 5) = ''ababc''" and bp: "sv_bytes ?M (view_at 16 2) = ''ab''"
    by code_simp+
  have np: "\<not> prefix (sv_bytes ?M (view_at 18 3)) (sv_bytes ?M (view_at 16 5))"
    by code_simp
  from strip_prefix_twice [of ?M "view_at 16 5" "view_at 16 2"] pre pp ne bv bp
  have a: "\<exists>v1 v2. StripPrefix ?M (view_at 16 5) (view_at 16 2) = Some v1
        \<and> StripPrefix_twice ?M (view_at 16 5) (view_at 16 2) = Some v2
        \<and> sv_bytes ?M v1 = ''abc'' \<and> v2 \<noteq> v1"
    by auto
  from strip_prefix_twice [of ?M "view_at 16 5" "view_at 18 3"] np
  have b: "StripPrefix ?M (view_at 16 5) (view_at 18 3) = Some (view_at 16 5)"
    by auto
  from a b show ?thesis by blast
qed

text \<open>
  Claim C9. \<open>StripPrefix(v, p)\<close> returns a view of length \<open>|v| - |p|\<close> when \<open>v\<close>
  begins with \<open>p\<close> and of length \<open>|v|\<close> otherwise, never a longer one, and the same
  holds for \<open>StripSuffix\<close> when \<open>v\<close> ends with \<open>p\<close>; with an empty pattern both return
  the input view unchanged.
\<close>

theorem strip_length:
  "(\<exists>v'. StripPrefix M v p = Some v'
       \<and> (prefix (sv_bytes M p) (sv_bytes M v) \<longrightarrow> sv_size v' + sv_size p = sv_size v)
       \<and> (\<not> prefix (sv_bytes M p) (sv_bytes M v) \<longrightarrow> sv_size v' = sv_size v)
       \<and> sv_size v' \<le> sv_size v)
   \<and> (\<exists>v'. StripSuffix M v p = Some v'
       \<and> (suffix (sv_bytes M p) (sv_bytes M v) \<longrightarrow> sv_size v' + sv_size p = sv_size v)
       \<and> (\<not> suffix (sv_bytes M p) (sv_bytes M v) \<longrightarrow> sv_size v' = sv_size v)
       \<and> sv_size v' \<le> sv_size v)
   \<and> (sv_size p = 0 \<longrightarrow> StripPrefix M v p = Some v \<and> StripSuffix M v p = Some v)"
proof -
  have le_p: "prefix (sv_bytes M p) (sv_bytes M v) \<Longrightarrow> sv_size p \<le> sv_size v"
    using prefix_length_le [of "sv_bytes M p" "sv_bytes M v"] by (simp add: length_sv_bytes)
  have le_s: "suffix (sv_bytes M p) (sv_bytes M v) \<Longrightarrow> sv_size p \<le> sv_size v"
    using suffix_length_le [of "sv_bytes M p" "sv_bytes M v"] by (simp add: length_sv_bytes)
  have empty: "sv_size p = 0 \<Longrightarrow> sv_bytes M p = []"
    using length_sv_bytes [of M p] by simp
  have a: "\<exists>v'. StripPrefix M v p = Some v'
       \<and> (prefix (sv_bytes M p) (sv_bytes M v) \<longrightarrow> sv_size v' + sv_size p = sv_size v)
       \<and> (\<not> prefix (sv_bytes M p) (sv_bytes M v) \<longrightarrow> sv_size v' = sv_size v)
       \<and> sv_size v' \<le> sv_size v"
    using le_p by (simp add: StripPrefix_cases)
  have b: "\<exists>v'. StripSuffix M v p = Some v'
       \<and> (suffix (sv_bytes M p) (sv_bytes M v) \<longrightarrow> sv_size v' + sv_size p = sv_size v)
       \<and> (\<not> suffix (sv_bytes M p) (sv_bytes M v) \<longrightarrow> sv_size v' = sv_size v)
       \<and> sv_size v' \<le> sv_size v"
    using le_s by (simp add: StripSuffix_cases)
  have c: "sv_size p = 0 \<longrightarrow> StripPrefix M v p = Some v \<and> StripSuffix M v p = Some v"
    using empty by (simp add: StripPrefix_cases StripSuffix_cases)
  from a b c show ?thesis by blast
qed

theorem strip_length_witness:
  "(\<exists>v'. StripPrefix (store_bytes zero_memory 16 ''abc'') (view_at 16 3) (view_at 16 2)
            = Some v' \<and> sv_size v' = 1)
   \<and> (\<exists>v'. StripPrefix (store_bytes zero_memory 16 ''abc'') (view_at 16 3) (view_at 18 1)
            = Some v' \<and> sv_size v' = 3)
   \<and> (\<exists>v'. StripSuffix (store_bytes zero_memory 16 ''abc'') (view_at 16 3) (view_at 17 2)
            = Some v' \<and> sv_size v' = 1)
   \<and> (\<exists>v'. StripSuffix (store_bytes zero_memory 16 ''abc'') (view_at 16 3) (view_at 16 1)
            = Some v' \<and> sv_size v' = 3)
   \<and> StripPrefix (store_bytes zero_memory 16 ''abc'') (view_at 16 3) (view_at 0 0)
        = Some (view_at 16 3)
   \<and> StripSuffix (store_bytes zero_memory 16 ''abc'') (view_at 16 3) (view_at 0 0)
        = Some (view_at 16 3)"
proof -
  let ?M = "store_bytes zero_memory 16 ''abc''"
  have sz: "sv_size (view_at 16 3) = 3" "sv_size (view_at 16 2) = 2" "sv_size (view_at 18 1) = 1"
    "sv_size (view_at 17 2) = 2" "sv_size (view_at 16 1) = 1" "sv_size (view_at 0 0) = 0"
    by (simp_all add: view_at_def)
  have pre: "prefix (sv_bytes ?M (view_at 16 2)) (sv_bytes ?M (view_at 16 3))"
    by code_simp
  from strip_length [of ?M "view_at 16 3" "view_at 16 2", THEN conjunct1] obtain v1 where
    "StripPrefix ?M (view_at 16 3) (view_at 16 2) = Some v1"
    "prefix (sv_bytes ?M (view_at 16 2)) (sv_bytes ?M (view_at 16 3))
       \<longrightarrow> sv_size v1 + sv_size (view_at 16 2) = sv_size (view_at 16 3)"
    by (elim exE conjE)
  with pre sz
  have a: "\<exists>v'. StripPrefix ?M (view_at 16 3) (view_at 16 2) = Some v' \<and> sv_size v' = 1"
    by simp
  have npre: "\<not> prefix (sv_bytes ?M (view_at 18 1)) (sv_bytes ?M (view_at 16 3))"
    by code_simp
  from strip_length [of ?M "view_at 16 3" "view_at 18 1", THEN conjunct1] obtain v2 where
    "StripPrefix ?M (view_at 16 3) (view_at 18 1) = Some v2"
    "\<not> prefix (sv_bytes ?M (view_at 18 1)) (sv_bytes ?M (view_at 16 3))
       \<longrightarrow> sv_size v2 = sv_size (view_at 16 3)"
    by (elim exE conjE)
  with npre sz
  have b: "\<exists>v'. StripPrefix ?M (view_at 16 3) (view_at 18 1) = Some v' \<and> sv_size v' = 3"
    by simp
  have suf: "suffix (sv_bytes ?M (view_at 17 2)) (sv_bytes ?M (view_at 16 3))"
    by code_simp
  from strip_length [of ?M "view_at 16 3" "view_at 17 2", THEN conjunct2, THEN conjunct1]
  obtain v3 where
    "StripSuffix ?M (view_at 16 3) (view_at 17 2) = Some v3"
    "suffix (sv_bytes ?M (view_at 17 2)) (sv_bytes ?M (view_at 16 3))
       \<longrightarrow> sv_size v3 + sv_size (view_at 17 2) = sv_size (view_at 16 3)"
    by (elim exE conjE)
  with suf sz
  have c: "\<exists>v'. StripSuffix ?M (view_at 16 3) (view_at 17 2) = Some v' \<and> sv_size v' = 1"
    by simp
  have nsuf: "\<not> suffix (sv_bytes ?M (view_at 16 1)) (sv_bytes ?M (view_at 16 3))"
    by code_simp
  from strip_length [of ?M "view_at 16 3" "view_at 16 1", THEN conjunct2, THEN conjunct1]
  obtain v4 where
    "StripSuffix ?M (view_at 16 3) (view_at 16 1) = Some v4"
    "\<not> suffix (sv_bytes ?M (view_at 16 1)) (sv_bytes ?M (view_at 16 3))
       \<longrightarrow> sv_size v4 = sv_size (view_at 16 3)"
    by (elim exE conjE)
  with nsuf sz
  have d: "\<exists>v'. StripSuffix ?M (view_at 16 3) (view_at 16 1) = Some v' \<and> sv_size v' = 3"
    by simp
  note strip_length [of ?M "view_at 16 3" "view_at 0 0",
      THEN conjunct2, THEN conjunct2, rule_format, OF sz(6)]
  then have e: "StripPrefix ?M (view_at 16 3) (view_at 0 0) = Some (view_at 16 3)
      \<and> StripSuffix ?M (view_at 16 3) (view_at 0 0) = Some (view_at 16 3)" .
  from a b c d e show ?thesis by (intro conjI) simp_all
qed


section \<open>Skipping whitespace and replacing characters\<close>

text \<open>
  Claim C6. Let \<open>str\<close> point to a NUL-terminated string: some byte \<open>str + n\<close> is NUL.
  Then \<open>SkipLeadingWhitespace(str)\<close> returns, and its result \<open>r\<close> points into the
  string, between \<open>str\<close> and that NUL (so it is not null when \<open>str\<close> is not); the byte
  at \<open>r\<close> is not ASCII whitespace, and every byte from \<open>str\<close> up to \<open>r\<close> is. No byte
  past the NUL is read: in every memory that agrees with this one from \<open>str\<close> to the NUL
  the call returns the same pointer.
\<close>

theorem skip_leading_whitespace:
  assumes nul: "M (str + n) = CHR 0x00"
  shows "\<exists>r. SkipLeadingWhitespace M str = Some r
      \<and> str \<le> r \<and> r \<le> str + n
      \<and> (str \<noteq> 0 \<longrightarrow> r \<noteq> 0)
      \<and> \<not> ascii_isspace (M r)
      \<and> (\<forall>a. str \<le> a \<and> a < r \<longrightarrow> ascii_isspace (M a))
      \<and> (\<forall>M'. (\<forall>a. str \<le> a \<and> a \<le> str + n \<longrightarrow> M' a = M a)
             \<longrightarrow> SkipLeadingWhitespace M' str = Some r)"
proof -
  define j where "j = (LEAST k. \<not> ascii_isspace (M (str + k)))"
  have stop_n: "\<not> ascii_isspace (M (str + n))"
    using nul by (simp add: not_isspace_NUL)
  then have stop: "\<not> ascii_isspace (M (str + j))"
    unfolding j_def by (rule LeastI)
  have j_le: "j \<le> n"
    unfolding j_def using stop_n by (rule Least_le)
  have run: "\<forall>k<j. ascii_isspace (M (str + k))"
  proof (intro allI impI)
    fix k assume "k < j"
    then have "\<not> \<not> ascii_isspace (M (str + k))"
      unfolding j_def by (rule not_less_Least)
    then show "ascii_isspace (M (str + k))" by simp
  qed
  have res: "SkipLeadingWhitespace M str = Some (str + j)"
    using run stop by (rule SkipLeadingWhitespace_first)
  have before: "\<forall>a. str \<le> a \<and> a < str + j \<longrightarrow> ascii_isspace (M a)"
  proof (intro allI impI)
    fix a assume a: "str \<le> a \<and> a < str + j"
    then have "a - str < j" by arith
    with run have "ascii_isspace (M (str + (a - str)))" by blast
    with a show "ascii_isspace (M a)" by simp
  qed
  have frame: "\<forall>M'. (\<forall>a. str \<le> a \<and> a \<le> str + n \<longrightarrow> M' a = M a)
             \<longrightarrow> SkipLeadingWhitespace M' str = Some (str + j)"
  proof (intro allI impI)
    fix M' assume same: "\<forall>a. str \<le> a \<and> a \<le> str + n \<longrightarrow> M' a = M a"
    have eq: "M' (str + k) = M (str + k)" if "k \<le> j" for k
      using same that j_le by simp
    have "\<forall>k<j. ascii_isspace (M' (str + k))"
      using run eq by simp
    moreover have "\<not> ascii_isspace (M' (str + j))"
      using stop eq by simp
    ultimately show "SkipLeadingWhitespace M' str = Some (str + j)"
      by (rule SkipLeadingWhitespace_first)
  qed
  from res stop j_le before frame show ?thesis by simp
qed

text \<open>
  The scenario of the spec: two spaces, a tab and a space before \<open>hello\<close>; the result
  points at the \<open>h\<close>.
\<close>

theorem skip_leading_whitespace_witness:
  "store_bytes zero_memory 8 ([CHR 0x20, CHR 0x20, CHR 0x09, CHR 0x20] @ ''hello'') (8 + 9)
     = CHR 0x00
   \<and> SkipLeadingWhitespace
        (store_bytes zero_memory 8 ([CHR 0x20, CHR 0x20, CHR 0x09, CHR 0x20] @ ''hello'')) 8
      = Some 12
   \<and> store_bytes zero_memory 8 ([CHR 0x20, CHR 0x20, CHR 0x09, CHR 0x20] @ ''hello'') 12
     = CHR ''h''"
proof -
  let ?M = "store_bytes zero_memory 8 ([CHR 0x20, CHR 0x20, CHR 0x09, CHR 0x20] @ ''hello'')"
  have nul: "?M (8 + 9) = CHR 0x00"
    by (simp add: store_bytes_def zero_memory_def)
  have sp: "ascii_isspace (?M 8)" "ascii_isspace (?M 9)" "ascii_isspace (?M 10)"
    "ascii_isspace (?M 11)"
    by (simp_all add: store_bytes_def ascii_isspace_def)
  have h: "?M 12 = CHR ''h''"
    by (simp add: store_bytes_def)
  have nsp: "\<not> ascii_isspace (?M 12)"
    by (simp add: store_bytes_def ascii_isspace_def)
  from skip_leading_whitespace [of ?M 8 9, OF nul] obtain r where
    r: "SkipLeadingWhitespace ?M 8 = Some r" "8 \<le> r" "\<not> ascii_isspace (?M r)"
       "\<forall>a. 8 \<le> a \<and> a < r \<longrightarrow> ascii_isspace (?M a)"
    by blast
  have "\<not> r < 12"
  proof
    assume "r < 12"
    with \<open>8 \<le> r\<close> have "r = 8 \<or> r = 9 \<or> r = 10 \<or> r = 11" by arith
    with sp r(3) show False by blast
  qed
  moreover have "\<not> 12 < r"
  proof
    assume "12 < r"
    with r(4) have "ascii_isspace (?M 12)" by simp
    with nsp show False by simp
  qed
  ultimately have "r = 12" by arith
  with r(1) nul h show ?thesis by simp
qed

text \<open>
  Claim C7. For \<open>a \<noteq> b\<close>, \<open>ReplaceCharacter(buf, n, a, b)\<close> returns, and in the
  memory it leaves no byte of \<open>buf[0..n)\<close> equals \<open>a\<close>, every position of the region
  that held \<open>a\<close> holds \<open>b\<close>, every position of the region that did not hold \<open>a\<close> is
  unchanged, every byte outside the region (at or beyond index \<open>n\<close>, or before
  \<open>buf\<close>) is untouched, and for \<open>n = 0\<close> nothing changes.
\<close>

theorem replace_character:
  assumes ne: "a \<noteq> b"
  shows "\<exists>M'. ReplaceCharacter M buf n a b = Some M'
     \<and> (\<forall>i<n. M' (buf + i) \<noteq> a)
     \<and> (\<forall>i<n. M (buf + i) = a \<longrightarrow> M' (buf + i) = b)
     \<and> (\<forall>i<n. M (buf + i) \<noteq> a \<longrightarrow> M' (buf + i) = M (buf + i))
     \<and> (\<forall>x. x < buf \<or> buf + n \<le> x \<longrightarrow> M' x = M x)
     \<and> (n = 0 \<longrightarrow> M' = M)"
proof -
  let ?M' = "\<lambda>x. if buf \<le> x \<and> x < buf + n \<and> M x = a then b else M x"
  show ?thesis
  proof (rule exI [of _ ?M'], intro conjI)
    show "ReplaceCharacter M buf n a b = Some ?M'"
      by (rule ReplaceCharacter_value)
    show "\<forall>i<n. ?M' (buf + i) \<noteq> a"
      using ne by simp
    show "\<forall>i<n. M (buf + i) = a \<longrightarrow> ?M' (buf + i) = b"
      by simp
    show "\<forall>i<n. M (buf + i) \<noteq> a \<longrightarrow> ?M' (buf + i) = M (buf + i)"
      by simp
    show "\<forall>x. x < buf \<or> buf + n \<le> x \<longrightarrow> ?M' x = M x"
      by auto
    show "n = 0 \<longrightarrow> ?M' = M"
      by (auto simp: fun_eq_iff)
  qed
qed

text \<open>
  The scenario of the spec, with one more byte after the region: the first five bytes
  of \<open>a-b-c-\<close> become \<open>a_b_c\<close> and the sixth keeps its \<open>-\<close>.
\<close>

theorem replace_character_witness:
  "CHR ''-'' \<noteq> CHR ''_''
   \<and> (\<exists>M'. ReplaceCharacter (store_bytes zero_memory 16 ''a-b-c-'') 16 5 CHR ''-'' CHR ''_''
             = Some M'
          \<and> map M' [16 ..< 22] = ''a_b_c-'')"
proof -
  let ?M = "store_bytes zero_memory 16 ''a-b-c-''"
  have ne: "CHR ''-'' \<noteq> CHR ''_''" by simp
  from replace_character [OF ne, of ?M 16 5] obtain M' where
    run: "ReplaceCharacter ?M 16 5 CHR ''-'' CHR ''_'' = Some M'"
    and hit: "\<forall>i<5. ?M (16 + i) = CHR ''-'' \<longrightarrow> M' (16 + i) = CHR ''_''"
    and miss: "\<forall>i<5. ?M (16 + i) \<noteq> CHR ''-'' \<longrightarrow> M' (16 + i) = ?M (16 + i)"
    and out: "\<forall>x. x < 16 \<or> 16 + 5 \<le> x \<longrightarrow> M' x = ?M x"
    by blast
  have "M' (16 + 0) = CHR ''a''"
    using spec [OF miss, of 0] by (simp add: store_bytes_def)
  moreover have "M' (16 + 1) = CHR ''_''"
    using spec [OF hit, of 1] by (simp add: store_bytes_def)
  moreover have "M' (16 + 2) = CHR ''b''"
    using spec [OF miss, of 2] by (simp add: store_bytes_def)
  moreover have "M' (16 + 3) = CHR ''_''"
    using spec [OF hit, of 3] by (simp add: store_bytes_def)
  moreover have "M' (16 + 4) = CHR ''c''"
    using spec [OF miss, of 4] by (simp add: store_bytes_def)
  moreover have "M' 21 = CHR ''-''"
    using spec [OF out, of 21] by (simp add: store_bytes_def)
  moreover have "[16 ..< 22] = [16, 17, 18, 19, 20, 21::nat]"
    by code_simp
  ultimately have bytes: "map M' [16 ..< 22] = ''a_b_c-''" by simp
  have "\<exists>M'. ReplaceCharacter ?M 16 5 CHR ''-'' CHR ''_'' = Some M'
          \<and> map M' [16 ..< 22] = ''a_b_c-''"
    by (rule exI [of _ M']) (simp only: run bytes)
  with ne show ?thesis by (rule conjI)
qed

text \<open>
  Claim C10. \<open>ReplaceCharacter(buf, n, a, a)\<close> leaves every byte of the memory
  unchanged, and for all arguments (whether or not \<open>a = b\<close>) a second
  \<open>ReplaceCharacter(buf, n, a, b)\<close> leaves the memory as the first one left it.
\<close>

theorem replace_character_same:
  "ReplaceCharacter M buf n a a = Some M
   \<and> (\<exists>M'. ReplaceCharacter M buf n a b = Some M'
          \<and> ReplaceCharacter M' buf n a b = Some M')"
proof -
  have same: "ReplaceCharacter M buf n a a = Some M"
    by (simp add: ReplaceCharacter_value fun_eq_iff)
  let ?M' = "\<lambda>x. if buf \<le> x \<and> x < buf + n \<and> M x = a then b else M x"
  have once: "ReplaceCharacter M buf n a b = Some ?M'"
    by (rule ReplaceCharacter_value)
  have "ReplaceCharacter ?M' buf n a b = Some ?M'"
    by (simp add: ReplaceCharacter_value fun_eq_iff)
  with same once show ?thesis by simp
qed

end
